theory Spec2Isabelle
  imports Main "HOL-Library.Sublist"
begin

section \<open>MediQuery UI: citation resolver and query submission flow\<close>

text \<open>
  The development embeds \<^verbatim>\<open>mediquery_ui/app/page.tsx\<close>: the function
  \<^verbatim>\<open>formatAnswerWithCitations\<close> (called \<^emph>\<open>resolve\<close> in the specification) and the
  event handlers of the component \<^verbatim>\<open>MediQueryUI\<close>.

  JavaScript strings are sequences of code units; they are modelled as \<^typ>\<open>string\<close>
  (a list of characters). The resolver works unit by unit, so the size of the
  alphabet plays no part in it.
\<close>

subsection \<open>The JavaScript built-ins the page calls\<close>

text \<open>
  \<^verbatim>\<open>`${index + 1}`\<close>: the decimal numeral of a non-negative integer
  (\<^verbatim>\<open>Number::toString\<close> below \<open>10\<^sup>2\<^sup>1\<close>).
\<close>

definition digitChar :: "nat \<Rightarrow> char" where
  "digitChar d = ''0123456789'' ! d"

fun numberToString :: "nat \<Rightarrow> string" where
  "numberToString n =
     (if n < 10 then [digitChar n]
      else numberToString (n div 10) @ [digitChar (n mod 10)])"

declare numberToString.simps [simp del]

text \<open>
  \<^verbatim>\<open>StringIndexOf(string, searchValue, 0)\<close>: the least position at which
  \<open>searchValue\<close> occurs, or not found.
\<close>

fun stringIndexOf :: "string \<Rightarrow> string \<Rightarrow> nat option" where
  "stringIndexOf [] searchValue = (if searchValue = [] then Some 0 else None)"
| "stringIndexOf (c # s) searchValue =
     (if prefix searchValue (c # s) then Some 0
      else map_option Suc (stringIndexOf s searchValue))"

text \<open>
  \<^verbatim>\<open>GetSubstitution(matched, str, position, captures, namedCaptures, template)\<close> for a
  string pattern: there are no captures, so \<^verbatim>\<open>$n\<close>, \<^verbatim>\<open>$nn\<close> and \<^verbatim>\<open>$<\<close> are
  copied as they stand, as is a dollar sign followed by any other unit or by nothing.
  The four live patterns are \<^verbatim>\<open>$$\<close> (a dollar sign), \<^verbatim>\<open>$`\<close> (the text before the
  match), \<^verbatim>\<open>$&\<close> (the match) and \<^verbatim>\<open>$'\<close> (the text after the match).
  \<open>preceding\<close> stands for the substring of \<open>str\<close> up to \<open>position\<close>, \<open>following\<close> for the
  substring from \<open>position + length matched\<close>.
\<close>

fun getSubstitution :: "string \<Rightarrow> string \<Rightarrow> string \<Rightarrow> string \<Rightarrow> string" where
  "getSubstitution matched preceding following (c # d # template) =
     (if c = CHR ''$'' \<and> d = CHR ''$''
        then CHR ''$'' # getSubstitution matched preceding following template
      else if c = CHR ''$'' \<and> d = CHR 0x60
        then preceding @ getSubstitution matched preceding following template
      else if c = CHR ''$'' \<and> d = CHR ''&''
        then matched @ getSubstitution matched preceding following template
      else if c = CHR ''$'' \<and> d = CHR 0x27
        then following @ getSubstitution matched preceding following template
      else c # getSubstitution matched preceding following (d # template))"
| "getSubstitution matched preceding following template = template"

text \<open>
  \<^verbatim>\<open>String.prototype.replace(searchValue, replaceValue)\<close> with two strings: only the
  first occurrence is replaced, and the replacement is the expansion of
  \<open>replaceValue\<close> as a template.
\<close>

definition replace :: "string \<Rightarrow> string \<Rightarrow> string \<Rightarrow> string" where
  "replace s searchValue replaceValue =
     (case stringIndexOf s searchValue of
        None \<Rightarrow> s
      | Some pos \<Rightarrow>
          (let preserved = take pos s;
               following = drop (pos + length searchValue) s
           in preserved
              @ getSubstitution searchValue preserved following replaceValue
              @ following))"

text \<open>\<^verbatim>\<open>String.prototype.includes\<close>.\<close>

definition stringIncludes :: "string \<Rightarrow> string \<Rightarrow> bool" where
  "stringIncludes s searchString = (stringIndexOf s searchString \<noteq> None)"

subsection \<open>formatAnswerWithCitations\<close>

text \<open>
  The two template literals of the callback:
  \<^verbatim>\<open>`[${index + 1}]`\<close> and \<^verbatim>\<open>`[[${index + 1}]](${citation})`\<close>,
  as functions of the number \<open>k = index + 1\<close>.
\<close>

definition marker :: "nat \<Rightarrow> string" where
  "marker k = ''['' @ numberToString k @ '']''"

definition link :: "nat \<Rightarrow> string \<Rightarrow> string" where
  "link k citation = ''[['' @ numberToString k @ '']]('' @ citation @ '')''"

text \<open>
  The function reads the array \<^verbatim>\<open>citations\<close> through the reference it is given
  and assigns its local variable \<^verbatim>\<open>formattedAnswer\<close>. The store holds the array
  object; whatever else the program can reach is the extension of the record. A
  configuration of the running function is the value of the local variable and
  the store.
\<close>

record store =
  citationsArray :: "string list"

definition callback ::
  "string \<Rightarrow> nat \<Rightarrow> string \<times> 'a store_scheme \<Rightarrow> string \<times> 'a store_scheme" where
  "callback citation index cfg =
     (case cfg of (formattedAnswer, st) \<Rightarrow>
        (replace formattedAnswer (marker (index + 1)) (link (index + 1) citation), st))"

text \<open>
  \<^verbatim>\<open>Array.prototype.forEach\<close>: the length is read once, the indices run upwards
  from \<open>k\<close>, and an index is visited when the array still has it.
\<close>

function forEach ::
  "nat \<Rightarrow> nat \<Rightarrow> string \<times> 'a store_scheme \<Rightarrow> string \<times> 'a store_scheme" where
  "forEach k len cfg =
     (if k < len
      then forEach (Suc k) len
             (if k < length (citationsArray (snd cfg))
              then callback (citationsArray (snd cfg) ! k) k cfg
              else cfg)
      else cfg)"
  by pat_completeness auto
termination
  by (relation "measure (\<lambda>(k, len, cfg). len - k)") auto

declare forEach.simps [simp del]

definition formatAnswerWithCitations_run ::
  "string \<Rightarrow> 'a store_scheme \<Rightarrow> string \<times> 'a store_scheme" where
  "formatAnswerWithCitations_run answer st =
     forEach 0 (length (citationsArray st)) (answer, st)"

definition formatAnswerWithCitations :: "string \<Rightarrow> string list \<Rightarrow> string" where
  "formatAnswerWithCitations answer citations =
     fst (formatAnswerWithCitations_run answer \<lparr>citationsArray = citations\<rparr>)"

text \<open>
  The same loop as a recursion over the remaining citations, \<open>k\<close> being the index
  of the first of them.
\<close>

fun resolveFrom :: "nat \<Rightarrow> string list \<Rightarrow> string \<Rightarrow> string" where
  "resolveFrom k [] s = s"
| "resolveFrom k (citation # rest) s =
     resolveFrom (Suc k) rest (replace s (marker (k + 1)) (link (k + 1) citation))"

subsection \<open>Notions for the statements and the proofs\<close>

text \<open>
  A replacement template holds a live pattern when a dollar sign in it is followed
  by one of the four units that make \<open>getSubstitution\<close> expand it.
\<close>

definition patternUnit :: "char \<Rightarrow> bool" where
  "patternUnit d \<longleftrightarrow> d = CHR ''$'' \<or> d = CHR 0x60 \<or> d = CHR ''&'' \<or> d = CHR 0x27"

fun hasLivePattern :: "string \<Rightarrow> bool" where
  "hasLivePattern [] = False"
| "hasLivePattern [c] = False"
| "hasLivePattern (c # d # t) = (c = CHR ''$'' \<and> patternUnit d \<or> hasLivePattern (d # t))"

text \<open>
  The number of positions at which a string occurs in another, for the phrase
  \<^emph>\<open>appears exactly once\<close>; and reading a decimal numeral back, which shows that two
  numbers with the same numeral are equal.
\<close>

definition digitVal :: "char \<Rightarrow> nat" where
  "digitVal c = of_char c - 48"

fun parseDigits :: "nat \<Rightarrow> string \<Rightarrow> nat" where
  "parseDigits acc [] = acc"
| "parseDigits acc (c # s) = parseDigits (10 * acc + digitVal c) s"

fun countOccurrences :: "string \<Rightarrow> string \<Rightarrow> nat" where
  "countOccurrences [] p = (if p = [] then 1 else 0)"
| "countOccurrences (c # s) p =
     (if prefix p (c # s) then 1 else 0) + countOccurrences s p"

text \<open>
  A text split as \<open>pre\<close>, a block \<open>t\<close>, \<open>post\<close>, and a replacement that is confined
  to \<open>pre\<close> or to \<open>post\<close>: the first occurrence of \<open>p\<close> is looked for in \<open>pre\<close>, then
  in \<open>post\<close>, never across the block or inside it, and the block is neither read as
  part of a match nor written. The text before and after the match, which the
  template may quote, is that of the whole string. \<open>resolveAround\<close> runs the
  resolver's steps in this way.
\<close>

definition replaceAround ::
  "string \<Rightarrow> string \<Rightarrow> string \<Rightarrow> string \<times> string \<Rightarrow> string \<times> string" where
  "replaceAround t p r sides =
     (case sides of (pre, post) \<Rightarrow>
        (case stringIndexOf pre p of
           Some q \<Rightarrow>
             (take q pre
                @ getSubstitution p (take q pre) (drop (q + length p) pre @ t @ post) r
                @ drop (q + length p) pre,
              post)
         | None \<Rightarrow>
             (case stringIndexOf post p of
                Some q \<Rightarrow>
                  (pre,
                   take q post
                     @ getSubstitution p (pre @ t @ take q post) (drop (q + length p) post) r
                     @ drop (q + length p) post)
              | None \<Rightarrow> (pre, post))))"

fun resolveAround :: "string \<Rightarrow> nat \<Rightarrow> string list \<Rightarrow> string \<times> string \<Rightarrow> string \<times> string" where
  "resolveAround t i [] sides = sides"
| "resolveAround t i (citation # rest) sides =
     resolveAround t (Suc i) rest
       (replaceAround t (marker (i + 1)) (link (i + 1) citation) sides)"

subsection \<open>The component MediQueryUI\<close>

text \<open>
  \<^verbatim>\<open>String.prototype.trim\<close> strips white space and line terminators from both ends.
  Of the units it strips, those of the Latin-1 range are listed: tab, line feed,
  vertical tab, form feed, carriage return, space and no-break space.
\<close>

definition isWhiteSpace :: "char \<Rightarrow> bool" where
  "isWhiteSpace c \<longleftrightarrow>
     c \<in> set [CHR 0x09, CHR 0x0A, CHR 0x0B, CHR 0x0C, CHR 0x0D, CHR 0x20, CHR 0xA0]"

definition trim :: "string \<Rightarrow> string" where
  "trim s = rev (dropWhile isWhiteSpace (rev (dropWhile isWhiteSpace s)))"

text \<open>The interface \<^verbatim>\<open>QueryResult\<close> and the four \<^verbatim>\<open>useState\<close> cells.\<close>

record QueryResult =
  topic :: string
  domain_filter :: "string list"
  answer :: string
  citations :: "string list"

record view =
  question :: string
  loading :: bool
  result :: "QueryResult option"
  error :: "string option"

definition initialView :: view where
  "initialView = \<lparr>question = [], loading = False, result = None, error = None\<rparr>"

text \<open>
  What \<^verbatim>\<open>await fetch(...)\<close> and \<^verbatim>\<open>await res.json()\<close> can come back with: the
  promise of \<^verbatim>\<open>fetch\<close> is rejected with an error carrying a message (a network
  failure), or it yields a response with a status and a body that parses to a
  \<^verbatim>\<open>QueryResult\<close> or makes \<^verbatim>\<open>res.json()\<close> throw. \<^verbatim>\<open>res.ok\<close> holds for the
  statuses 200 to 299.
\<close>

datatype jsonBody = Parsed QueryResult | ParseError string

datatype fetchOutcome = Rejected string | Response nat jsonBody

definition ok :: "nat \<Rightarrow> bool" where
  "ok status \<longleftrightarrow> 200 \<le> status \<and> status \<le> 299"

text \<open>
  \<^verbatim>\<open>askQuestion\<close> up to its first \<^verbatim>\<open>await\<close>: the new view and, when a request is
  sent, the question posted in its body.
\<close>

definition askQuestion :: "view \<Rightarrow> view \<times> string option" where
  "askQuestion st =
     (if trim (question st) = [] then (st, None)
      else (st\<lparr>loading := True, result := None, error := None\<rparr>, Some (question st)))"

text \<open>
  The rest of the \<^verbatim>\<open>try\<close> block, with a thrown error as a value (\<open>Inl\<close> its
  message); then \<^verbatim>\<open>catch\<close> and \<^verbatim>\<open>finally\<close>.
\<close>

definition tryBlock :: "fetchOutcome \<Rightarrow> string + QueryResult" where
  "tryBlock outcome =
     (case outcome of
        Rejected message \<Rightarrow> Inl message
      | Response status body \<Rightarrow>
          if \<not> ok status then Inl (''HTTP error! Status: '' @ numberToString status)
          else (case body of ParseError message \<Rightarrow> Inl message | Parsed data \<Rightarrow> Inr data))"

definition askQuestion_settle :: "fetchOutcome \<Rightarrow> view \<Rightarrow> view" where
  "askQuestion_settle outcome st =
     (let st' = (case tryBlock outcome of
                   Inr data \<Rightarrow> st\<lparr>result := Some data\<rparr>
                 | Inl message \<Rightarrow> st\<lparr>error := Some message\<rparr>)
      in st'\<lparr>loading := False\<rparr>)"

definition handleKeyPress :: "string \<Rightarrow> bool \<Rightarrow> view \<Rightarrow> view \<times> string option" where
  "handleKeyPress key shiftKey st =
     (if key = ''Enter'' \<and> \<not> shiftKey then askQuestion st else (st, None))"

text \<open>
  What the render function shows: the \<^verbatim>\<open>disabled\<close> attribute of the button, the
  error paragraph (\<^verbatim>\<open>error && ...\<close>: the empty string is falsy), the skeleton and
  the result card.
\<close>

definition buttonDisabled :: "view \<Rightarrow> bool" where
  "buttonDisabled st \<longleftrightarrow> loading st \<or> trim (question st) = []"

definition errorShown :: "view \<Rightarrow> bool" where
  "errorShown st \<longleftrightarrow> (case error st of None \<Rightarrow> False | Some message \<Rightarrow> message \<noteq> [])"

definition skeletonShown :: "view \<Rightarrow> bool" where
  "skeletonShown st \<longleftrightarrow> loading st"

definition resultCardShown :: "view \<Rightarrow> bool" where
  "resultCardShown st \<longleftrightarrow> \<not> loading st \<and> result st \<noteq> None"

text \<open>
  The events of a session: typing into the input (\<^verbatim>\<open>onChange\<close>), a click on the
  button (a disabled button delivers none), a key going down in the input
  (\<^verbatim>\<open>onKeyDown\<close>, with the key and the state of shift), and a pending request
  settling. \<open>handle\<close> gives the new view and the body of the request the event
  starts, if it starts one; \<open>run\<close> folds a list of events and collects the requests.
\<close>

datatype event = Change string | Click | KeyDown string bool | Settle fetchOutcome

fun handle :: "view \<Rightarrow> event \<Rightarrow> view \<times> string option" where
  "handle st (Change v) = (st\<lparr>question := v\<rparr>, None)"
| "handle st Click = (if buttonDisabled st then (st, None) else askQuestion st)"
| "handle st (KeyDown key shiftKey) = handleKeyPress key shiftKey st"
| "handle st (Settle outcome) = (askQuestion_settle outcome st, None)"

fun run :: "view \<times> string list \<Rightarrow> event list \<Rightarrow> view \<times> string list" where
  "run cfg [] = cfg"
| "run (st, fetches) (e # es) =
     (case handle st e of
        (st', None) \<Rightarrow> run (st', fetches) es
      | (st', Some body) \<Rightarrow> run (st', fetches @ [body]) es)"

section \<open>The resolver\<close>

subsection \<open>The loop and its list form\<close>

lemma forEach_resolveFrom:
  "len = length (citationsArray st) \<Longrightarrow> k \<le> len \<Longrightarrow>
   forEach k len (s, st) = (resolveFrom k (drop k (citationsArray st)) s, st)"
proof (induction k len "(s, st)" arbitrary: s rule: forEach.induct)
  case (1 k len)
  show ?case
  proof (cases "k < len")
    case True
    then have d: "drop k (citationsArray st) = citationsArray st ! k # drop (Suc k) (citationsArray st)"
      using "1.prems" by (simp add: Cons_nth_drop_Suc)
    have c: "callback (citationsArray st ! k) k (s, st) =
             (replace s (marker (k + 1)) (link (k + 1) (citationsArray st ! k)), st)"
      by (simp add: callback_def)
    from True "1.prems" have "forEach k len (s, st) =
        forEach (Suc k) len (callback (citationsArray st ! k) k (s, st))"
      by (subst forEach.simps) simp
    also have "\<dots> = (resolveFrom (Suc k) (drop (Suc k) (citationsArray st))
                       (replace s (marker (k + 1)) (link (k + 1) (citationsArray st ! k))), st)"
      unfolding c using True "1.prems" "1.hyps"[OF True, of "replace s (marker (k + 1)) (link (k + 1) (citationsArray st ! k))"]
      by (simp add: callback_def)
    finally show ?thesis by (simp add: d)
  next
    case False
    with "1.prems" have "k = len" by simp
    then show ?thesis using "1.prems" by (subst forEach.simps) simp
  qed
qed

lemma formatAnswerWithCitations_run_eq:
  "formatAnswerWithCitations_run s st = (resolveFrom 0 (citationsArray st) s, st)"
  by (simp add: formatAnswerWithCitations_run_def forEach_resolveFrom)

lemma formatAnswerWithCitations_eq:
  "formatAnswerWithCitations s cs = resolveFrom 0 cs s"
  by (simp add: formatAnswerWithCitations_def formatAnswerWithCitations_run_eq)

text \<open>
  The citations are processed in ascending order, each step working on the string
  the steps before it have left.
\<close>

lemma resolveFrom_snoc:
  "resolveFrom i (cs @ [c]) s =
   replace (resolveFrom i cs s) (marker (i + length cs + 1)) (link (i + length cs + 1) c)"
  by (induction cs arbitrary: i s) auto

lemma formatAnswerWithCitations_snoc:
  "formatAnswerWithCitations s (cs @ [c]) =
   replace (formatAnswerWithCitations s cs) (marker (length cs + 1)) (link (length cs + 1) c)"
  by (simp add: formatAnswerWithCitations_eq resolveFrom_snoc)

lemmas eval_simps =
  formatAnswerWithCitations_eq replace_def marker_def link_def stringIncludes_def
  numberToString.simps digitChar_def Let_def

subsection \<open>Occurrences of a string in a string\<close>

lemma stringIndexOf_None_iff: "stringIndexOf s p = None \<longleftrightarrow> \<not> sublist p s"
  by (induction s) (auto simp: sublist_Cons_right)

lemma stringIncludes_iff: "stringIncludes s p \<longleftrightarrow> sublist p s"
  by (simp add: stringIncludes_def stringIndexOf_None_iff)

lemma prefix_shorter:
  "prefix p (x @ z) \<Longrightarrow> length p \<le> length x \<Longrightarrow> prefix p x"
  by (metis prefix_length_prefix prefixI)

lemma snoc_split: "p \<noteq> [] \<Longrightarrow> x @ p @ v = (x @ butlast p) @ last p # v"
  by (metis append.assoc append_Cons append_Nil append_butlast_last_id)

lemma prefix_snoc_split:
  "p \<noteq> [] \<Longrightarrow> prefix q ((x @ butlast p) @ last p # v) = prefix q (x @ p @ v)"
  using snoc_split by metis

lemma stringIndexOf_first:
  "p \<noteq> [] \<Longrightarrow> \<not> sublist p (u @ butlast p) \<Longrightarrow> stringIndexOf (u @ p @ v) p = Some (length u)"
proof (induction u)
  case Nil
  then show ?case by (cases p) auto
next
  case (Cons c u)
  have np: "\<not> prefix p (c # u @ p @ v)"
  proof
    assume "prefix p (c # u @ p @ v)"
    then have "prefix p ((c # u @ butlast p) @ (last p # v))"
      using prefix_snoc_split[OF Cons.prems(1), of p "c # u" v] by simp
    moreover have "length p \<le> length (c # u @ butlast p)" by simp
    ultimately have "prefix p (c # u @ butlast p)" by (rule prefix_shorter)
    then show False using Cons.prems(2) by (auto dest: prefix_imp_sublist)
  qed
  have "\<not> sublist p (u @ butlast p)"
    using Cons.prems(2) by (auto simp: sublist_Cons_right)
  with Cons.IH Cons.prems(1) have "stringIndexOf (u @ p @ v) p = Some (length u)" by simp
  with np show ?case by simp
qed

lemma first_occurrence:
  "p \<noteq> [] \<Longrightarrow> sublist p s \<Longrightarrow> \<exists>u v. s = u @ p @ v \<and> \<not> sublist p (u @ butlast p)"
proof (induction s)
  case Nil
  then show ?case by simp
next
  case (Cons c s)
  show ?case
  proof (cases "prefix p (c # s)")
    case True
    then obtain v where "c # s = p @ v" by (auto simp: prefix_def)
    moreover have "\<not> sublist p (butlast p)"
      using Cons.prems(1) sublist_length_le[of p "butlast p"] by (cases p) auto
    ultimately show ?thesis by (intro exI[of _ "[]"] exI[of _ v]) simp
  next
    case False
    with Cons.prems have "sublist p s" by (simp add: sublist_Cons_right)
    with Cons.IH Cons.prems(1) obtain u v where
      s: "s = u @ p @ v" and f: "\<not> sublist p (u @ butlast p)" by blast
    have "\<not> prefix p (c # u @ butlast p)"
    proof
      assume "prefix p (c # u @ butlast p)"
      then have "prefix p ((c # u @ butlast p) @ (last p # v))" by (rule prefix_prefix)
      then have "prefix p (c # u @ p @ v)"
        using prefix_snoc_split[OF Cons.prems(1), of p "c # u" v] by simp
      then show False using False s by simp
    qed
    with f have "\<not> sublist p ((c # u) @ butlast p)" by (simp add: sublist_Cons_right)
    with s show ?thesis by (intro exI[of _ "c # u"] exI[of _ v]) simp
  qed
qed

lemma replace_absent: "\<not> sublist p s \<Longrightarrow> replace s p r = s"
  by (simp add: replace_def stringIndexOf_None_iff[symmetric])

lemma replace_first:
  "p \<noteq> [] \<Longrightarrow> \<not> sublist p (u @ butlast p) \<Longrightarrow>
   replace (u @ p @ v) p r = u @ getSubstitution p u v r @ v"
  by (simp add: replace_def stringIndexOf_first)

lemma sublist_boundary:
  assumes "sublist p (x @ y)"
  shows "sublist p x \<or> sublist p y \<or>
         (x \<noteq> [] \<and> y \<noteq> [] \<and> last x \<in> set (butlast p) \<and> hd y \<in> set (tl p))"
proof -
  from assms consider "sublist p x" | "sublist p y"
    | p1 p2 where "p = p1 @ p2" "suffix p1 x" "prefix p2 y"
    by (auto simp: sublist_append)
  then show ?thesis
  proof cases
    case 3
    show ?thesis
    proof (cases "p1 = [] \<or> p2 = []")
      case True
      with 3 show ?thesis by (auto dest: prefix_imp_sublist suffix_imp_sublist)
    next
      case False
      then have "p1 \<noteq> []" "p2 \<noteq> []" by auto
      moreover from this 3 have "last x = last p1" "hd y = hd p2"
        by (auto simp: suffix_def prefix_def)
      moreover from \<open>p1 \<noteq> []\<close> \<open>p2 \<noteq> []\<close> 3 have "last p1 \<in> set (butlast p)" "hd p2 \<in> set (tl p)"
        by (auto simp: butlast_append)
      moreover from \<open>p1 \<noteq> []\<close> \<open>p2 \<noteq> []\<close> 3 have "x \<noteq> []" "y \<noteq> []"
        by (auto simp: suffix_def prefix_def)
      ultimately show ?thesis by simp
    qed
  qed auto
qed

subsection \<open>Numerals and markers\<close>

lemma digit_cases: "d < 10 \<Longrightarrow> d \<in> {0, 1, 2, 3, 4, 5, 6, 7, 8, 9 :: nat}"
  by auto

lemma digitVal_digitChar: "d < 10 \<Longrightarrow> digitVal (digitChar d) = d"
  using digit_cases[of d] by (auto simp: digitVal_def digitChar_def)

lemma digitChar_digit: "d < 10 \<Longrightarrow> digitChar d \<in> set ''0123456789''"
  unfolding digitChar_def by (rule nth_mem) simp

lemma numberToString_digits: "set (numberToString n) \<subseteq> set ''0123456789''"
proof (induction n rule: numberToString.induct)
  case (1 n)
  show ?case
  proof (cases "n < 10")
    case True
    then show ?thesis using digitChar_digit[of n] by (subst numberToString.simps) simp
  next
    case False
    then show ?thesis
      using "1.IH" digitChar_digit[of "n mod 10"] by (subst numberToString.simps) simp
  qed
qed

lemma parseDigits_append: "parseDigits acc (s @ t) = parseDigits (parseDigits acc s) t"
  by (induction s arbitrary: acc) auto

lemma parseDigits_numberToString: "parseDigits 0 (numberToString n) = n"
proof (induction n rule: numberToString.induct)
  case (1 n)
  show ?case
  proof (cases "n < 10")
    case True
    then show ?thesis by (subst numberToString.simps) (simp add: digitVal_digitChar)
  next
    case False
    then show ?thesis
      using "1.IH" by (subst numberToString.simps) (simp add: parseDigits_append digitVal_digitChar)
  qed
qed

lemma numberToString_inj: "numberToString j = numberToString k \<Longrightarrow> j = k"
  by (metis parseDigits_numberToString)

lemma marker_Cons: "marker k = CHR ''['' # numberToString k @ '']''"
  by (simp add: marker_def)

lemma marker_not_Nil: "marker k \<noteq> []"
  by (simp add: marker_def)

lemma digit_not_special:
  "c \<in> set ''0123456789'' \<Longrightarrow>
   c \<noteq> CHR ''['' \<and> c \<noteq> CHR '']'' \<and> c \<noteq> CHR ''$'' \<and> c \<noteq> CHR '')''
   \<and> c \<noteq> CHR ''(''"
  by auto

lemma numberToString_plain:
  "CHR ''['' \<notin> set (numberToString k)" "CHR '']'' \<notin> set (numberToString k)"
  "CHR ''$'' \<notin> set (numberToString k)" "CHR '')'' \<notin> set (numberToString k)"
  "CHR ''('' \<notin> set (numberToString k)"
  using numberToString_digits[of k] digit_not_special by blast+

lemma tl_marker: "CHR ''['' \<notin> set (tl (marker k))"
  by (simp add: marker_def numberToString_plain)

lemma butlast_marker: "CHR '']'' \<notin> set (butlast (marker k))"
  by (simp add: marker_def butlast_append numberToString_plain)

lemma hd_marker: "hd (marker k @ v) = CHR ''[''"
  by (simp add: marker_def)

lemma last_marker: "last (u @ marker k) = CHR '']''"
  by (simp add: marker_def)

lemma marker_inj: "marker j = marker k \<Longrightarrow> j = k"
  by (simp add: marker_def numberToString_inj)

lemma sublist_marker_marker:
  assumes "sublist (marker j) (marker k)"
  shows "j = k"
proof -
  from assms obtain ps ss where e: "marker k = ps @ marker j @ ss"
    by (auto simp: sublist_def)
  have "ps = []"
  proof (rule ccontr)
    assume "ps \<noteq> []"
    then obtain c ps' where "ps = c # ps'" by (cases ps) auto
    with e have "tl (marker k) = ps' @ marker j @ ss" by simp
    then have "CHR ''['' \<in> set (tl (marker k))" by (simp add: marker_Cons)
    with tl_marker[of k] show False by simp
  qed
  moreover have "ss = []"
  proof (rule ccontr)
    assume "ss \<noteq> []"
    then have "butlast (marker k) = ps @ marker j @ butlast ss"
      using e by (simp add: butlast_append marker_not_Nil)
    then have "CHR '']'' \<in> set (butlast (marker k))" by (simp add: marker_Cons)
    with butlast_marker[of k] show False by simp
  qed
  ultimately show ?thesis using e marker_inj by simp
qed

text \<open>An occurrence of one marker never overlaps an occurrence of another.\<close>

lemma sublist_marker_around:
  assumes "sublist (marker k) (u @ marker j @ v)" and "j \<noteq> k"
  shows "sublist (marker k) u \<or> sublist (marker k) v"
proof -
  from sublist_boundary[OF assms(1)] tl_marker[of k] hd_marker[of j v]
  have "sublist (marker k) u \<or> sublist (marker k) (marker j @ v)"
    by auto
  moreover have "sublist (marker k) v" if "sublist (marker k) (marker j @ v)"
    using sublist_boundary[OF that] butlast_marker[of k] last_marker[of "[]" j]
      sublist_marker_marker[of k j] assms(2) by auto
  ultimately show ?thesis by blast
qed

lemma replace_keeps_other_marker:
  assumes "sublist (marker k) s" and "j \<noteq> k"
  shows "sublist (marker k) (replace s (marker j) r)"
proof (cases "sublist (marker j) s")
  case False
  with assms show ?thesis by (simp add: replace_absent)
next
  case True
  from first_occurrence[OF marker_not_Nil True] obtain u v where
    s: "s = u @ marker j @ v" and f: "\<not> sublist (marker j) (u @ butlast (marker j))"
    by blast
  from assms s have "sublist (marker k) u \<or> sublist (marker k) v"
    using sublist_marker_around by blast
  then have "sublist (marker k) (u @ getSubstitution (marker j) u v r @ v)"
    by (metis sublist_append)
  then show ?thesis by (simp add: s replace_first[OF marker_not_Nil f])
qed

lemma resolveFrom_keeps_marker:
  "sublist (marker k) s \<Longrightarrow> k \<le> i \<or> i + length cs < k \<Longrightarrow>
   sublist (marker k) (resolveFrom i cs s)"
proof (induction cs arbitrary: i s)
  case Nil
  then show ?case by simp
next
  case (Cons c cs)
  from Cons.prems(2) have "i + 1 \<noteq> k" by auto
  with Cons.prems(1) have "sublist (marker k) (replace s (marker (i + 1)) (link (i + 1) c))"
    by (rule replace_keeps_other_marker)
  moreover from Cons.prems(2) have "k \<le> Suc i \<or> Suc i + length cs < k" by auto
  ultimately have "sublist (marker k)
      (resolveFrom (Suc i) cs (replace s (marker (i + 1)) (link (i + 1) c)))"
    by (rule Cons.IH)
  then show ?case by simp
qed

subsection \<open>Replacing a marker by a link that has no live pattern\<close>

lemma paren_not_in_butlast_marker: "CHR '')'' \<notin> set (butlast (marker k))"
  by (simp add: marker_def butlast_append numberToString_plain)

lemma sublist_around_block:
  assumes "sublist (marker k) (x @ t @ y)"
    and "t \<noteq> []" and "hd t = CHR ''[''" and "last t \<notin> set (butlast (marker k))"
  shows "sublist (marker k) x \<or> sublist (marker k) t \<or> sublist (marker k) y"
proof -
  from sublist_boundary[OF assms(1)] tl_marker[of k] assms(2,3)
  have "sublist (marker k) x \<or> sublist (marker k) (t @ y)"
    by auto
  moreover have "sublist (marker k) t \<or> sublist (marker k) y" if "sublist (marker k) (t @ y)"
    using sublist_boundary[OF that] assms(4) by auto
  ultimately show ?thesis by blast
qed

lemma getSubstitution_inert:
  "\<not> hasLivePattern x \<Longrightarrow> x = [] \<or> last x \<noteq> CHR ''$'' \<or> t = [] \<or> \<not> patternUnit (hd t) \<Longrightarrow>
   getSubstitution m b a (x @ t) = x @ getSubstitution m b a t"
proof (induction x rule: hasLivePattern.induct)
  case 1
  then show ?case by simp
next
  case (2 c)
  then show ?case by (cases t) (auto simp: patternUnit_def)
next
  case (3 c d u)
  then show ?case by (auto simp: patternUnit_def)
qed

lemma getSubstitution_literal:
  "\<not> hasLivePattern t \<Longrightarrow> getSubstitution m b a t = t"
  using getSubstitution_inert[of t "[]" m b a] by simp

lemma no_dollar_inert: "CHR ''$'' \<notin> set x \<Longrightarrow> \<not> hasLivePattern x"
  by (induction x rule: hasLivePattern.induct) auto

lemma hasLivePattern_append:
  "hasLivePattern (x @ y) \<longleftrightarrow>
     hasLivePattern x \<or> hasLivePattern y
     \<or> (x \<noteq> [] \<and> y \<noteq> [] \<and> last x = CHR ''$'' \<and> patternUnit (hd y))"
proof (induction x rule: hasLivePattern.induct)
  case 1
  then show ?case by simp
next
  case (2 c)
  then show ?case by (cases y) auto
next
  case (3 c d u)
  then show ?case by auto
qed

lemma link_inert:
  assumes "\<not> hasLivePattern c"
  shows "\<not> hasLivePattern (link k c)"
proof -
  let ?h = "''[['' @ numberToString k @ '']](''"
  have h: "\<not> hasLivePattern ?h"
    by (rule no_dollar_inert) (simp add: numberToString_plain)
  have l: "last ?h \<noteq> CHR ''$''" by simp
  have a: "\<not> hasLivePattern (c @ '')'')"
    using assms by (simp add: hasLivePattern_append patternUnit_def)
  have "\<not> hasLivePattern (?h @ (c @ '')''))"
    using hasLivePattern_append[of ?h "c @ '')''"] h l a by blast
  moreover have "link k c = ?h @ (c @ '')'')" by (simp add: link_def)
  ultimately show ?thesis by simp
qed

lemma replace_plain_first:
  "p \<noteq> [] \<Longrightarrow> \<not> hasLivePattern r \<Longrightarrow> \<not> sublist p (u @ butlast p) \<Longrightarrow>
   replace (u @ p @ v) p r = u @ r @ v"
  by (simp add: replace_first getSubstitution_literal)

lemma replace_append_left:
  assumes "p \<noteq> []" and "\<not> hasLivePattern r" and "sublist p x"
  shows "replace (x @ z) p r = replace x p r @ z"
proof -
  from first_occurrence[OF assms(1,3)] obtain u v where
    x: "x = u @ p @ v" and f: "\<not> sublist p (u @ butlast p)" by blast
  have "replace (u @ p @ (v @ z)) p r = u @ r @ v @ z"
    using assms(1,2) f by (rule replace_plain_first)
  moreover have "replace (u @ p @ v) p r = u @ r @ v"
    using assms(1,2) f by (rule replace_plain_first)
  ultimately show ?thesis by (simp add: x)
qed

lemma replace_append_right:
  assumes "p \<noteq> []" and "\<not> hasLivePattern r" and "\<not> sublist p x"
    and "x \<noteq> []" and "last x \<notin> set (butlast p)"
  shows "replace (x @ z) p r = x @ replace z p r"
proof (cases "sublist p z")
  case False
  with assms(3,5) have "\<not> sublist p (x @ z)"
    using sublist_boundary[of p x z] by auto
  with False show ?thesis by (simp add: replace_absent)
next
  case True
  from first_occurrence[OF assms(1) True] obtain u v where
    z: "z = u @ p @ v" and f: "\<not> sublist p (u @ butlast p)" by blast
  have "\<not> sublist p (x @ (u @ butlast p))"
    using sublist_boundary[of p x "u @ butlast p"] assms(3,5) f by auto
  then have nf: "\<not> sublist p ((x @ u) @ butlast p)" by simp
  have "replace ((x @ u) @ p @ v) p r = (x @ u) @ r @ v"
    using assms(1,2) nf by (rule replace_plain_first)
  moreover have "replace (u @ p @ v) p r = u @ r @ v"
    using assms(1,2) f by (rule replace_plain_first)
  ultimately show ?thesis by (simp add: z)
qed

lemma set_sublist: "sublist p s \<Longrightarrow> set p \<subseteq> set s"
  by (auto simp: sublist_def)

lemma link_split: "link j c = ''['' @ marker j @ ('']('' @ c @ '')'')"
  by (simp add: link_def marker_def)

lemma marker_units:
  "CHR ''('' \<notin> set (marker k)" "CHR '')'' \<notin> set (marker k)"
  by (simp_all add: marker_def numberToString_plain)

lemma marker_in_link:
  assumes "sublist (marker k) (link j c)"
  shows "j = k \<or> sublist (marker k) c"
proof -
  have "sublist (marker k) (''['' @ marker j @ ('']('' @ c @ '')''))"
    using assms by (simp only: link_split)
  then have "sublist (marker k) ''['' \<or> sublist (marker k) (marker j)
      \<or> sublist (marker k) ('']('' @ c @ '')'')"
    by (rule sublist_around_block) (simp_all add: marker_not_Nil hd_marker[of j "[]", simplified]
        last_marker[of "[]" j, simplified] butlast_marker)
  moreover have "\<not> sublist (marker k) ''[''"
  proof
    assume "sublist (marker k) ''[''"
    then have "set (marker k) \<subseteq> set ''[''" by (rule set_sublist)
    moreover have "CHR '']'' \<in> set (marker k)" by (simp add: marker_def)
    ultimately show False by auto
  qed
  moreover have "sublist (marker k) c" if a: "sublist (marker k) ('']('' @ c @ '')'')"
  proof -
    have n1: "\<not> sublist (marker k) ''](''"
    proof
      assume "sublist (marker k) ''](''"
      then have "set (marker k) \<subseteq> set ''](''" by (rule set_sublist)
      moreover have "CHR ''['' \<in> set (marker k)" by (simp add: marker_def)
      ultimately show False by auto
    qed
    have n2: "\<not> sublist (marker k) '')''"
    proof
      assume "sublist (marker k) '')''"
      then have "set (marker k) \<subseteq> set '')''" by (rule set_sublist)
      moreover have "CHR ''['' \<in> set (marker k)" by (simp add: marker_def)
      ultimately show False by auto
    qed
    have b1: "CHR ''('' \<notin> set (butlast (marker k))"
      using marker_units(1)[of k] by (meson in_set_butlastD)
    have b2: "CHR '')'' \<notin> set (tl (marker k))"
      using marker_units(2)[of k] by (meson list.set_sel(2) marker_not_Nil)
    from sublist_boundary[of "marker k" "''](''" "c @ '')''"] a n1 b1
    have "sublist (marker k) (c @ '')'')" by auto
    from sublist_boundary[OF this] n2 b2 show ?thesis by auto
  qed
  ultimately show ?thesis using sublist_marker_marker by blast
qed

lemma hd_link: "hd (link j c) = CHR ''[''" and last_link: "last (link j c) = CHR '')''"
  and link_not_Nil: "link j c \<noteq> []"
  by (simp_all add: link_def)

text \<open>
  Replacing one marker by its link creates no occurrence of another marker that
  the citation does not hold.
\<close>

lemma replace_no_new_marker:
  assumes "\<not> sublist (marker k) y" and "j \<noteq> k"
    and "\<not> hasLivePattern c" and "\<not> sublist (marker k) c"
  shows "\<not> sublist (marker k) (replace y (marker j) (link j c))"
proof (cases "sublist (marker j) y")
  case False
  with assms(1) show ?thesis by (simp add: replace_absent)
next
  case True
  from first_occurrence[OF marker_not_Nil True] obtain u v where
    y: "y = u @ marker j @ v" and f: "\<not> sublist (marker j) (u @ butlast (marker j))"
    by blast
  have r: "replace y (marker j) (link j c) = u @ link j c @ v"
    unfolding y using marker_not_Nil link_inert[OF assms(3)] f by (rule replace_plain_first)
  have nu: "\<not> sublist (marker k) u" and nv: "\<not> sublist (marker k) v"
    using assms(1) unfolding y by (metis sublist_append)+
  show ?thesis
  proof
    assume "sublist (marker k) (replace y (marker j) (link j c))"
    then have "sublist (marker k) (u @ link j c @ v)" by (simp only: r)
    then have "sublist (marker k) u \<or> sublist (marker k) (link j c) \<or> sublist (marker k) v"
      by (rule sublist_around_block)
         (simp_all add: hd_link last_link link_not_Nil paren_not_in_butlast_marker)
    with nu nv marker_in_link[of k j c] assms(2,4) show False by blast
  qed
qed

subsection \<open>Markers that stay in place while the others are processed\<close>

lemma countOccurrences_0_iff: "countOccurrences s p = 0 \<longleftrightarrow> \<not> sublist p s"
  by (induction s) (auto simp: sublist_Cons_right)

lemma single_occurrence:
  "p \<noteq> [] \<Longrightarrow> countOccurrences s p = 1 \<Longrightarrow>
   \<exists>u v. s = u @ p @ v \<and> \<not> sublist p u \<and> \<not> sublist p v"
proof (induction s)
  case Nil
  then show ?case by simp
next
  case (Cons c s)
  show ?case
  proof (cases "prefix p (c # s)")
    case True
    then obtain v where v: "c # s = p @ v" by (auto simp: prefix_def)
    from True Cons.prems(2) have "\<not> sublist p s"
      by (simp add: countOccurrences_0_iff)
    moreover from v Cons.prems(1) have "suffix v s"
      by (cases p) (auto simp: suffix_def)
    ultimately have "\<not> sublist p v"
      using suffix_imp_sublist sublist_order.order_trans by blast
    with v Cons.prems(1) show ?thesis
      by (intro exI[of _ "[]"] exI[of _ v]) simp
  next
    case False
    with Cons.prems(2) have "countOccurrences s p = 1" by simp
    with Cons.IH Cons.prems(1) obtain u v where
      s: "s = u @ p @ v" and n: "\<not> sublist p u" "\<not> sublist p v" by blast
    have "\<not> prefix p (c # u)"
    proof
      assume "prefix p (c # u)"
      then have "prefix p ((c # u) @ p @ v)" by (rule prefix_prefix)
      with False s show False by simp
    qed
    with n(1) have "\<not> sublist p (c # u)" by (simp add: sublist_Cons_right)
    with s n(2) show ?thesis by (intro exI[of _ "c # u"] exI[of _ v]) simp
  qed
qed

lemma resolveFrom_append:
  "resolveFrom i (as @ bs) s = resolveFrom (i + length as) bs (resolveFrom i as s)"
  by (induction as arbitrary: i s) auto

lemma resolveFrom_no_new_marker:
  "\<forall>c\<in>set cs. \<not> hasLivePattern c \<and> \<not> sublist (marker k) c \<Longrightarrow>
   \<not> sublist (marker k) y \<Longrightarrow> k \<le> i \<or> i + length cs < k \<Longrightarrow>
   \<not> sublist (marker k) (resolveFrom i cs y)"
proof (induction cs arbitrary: i y)
  case Nil
  then show ?case by simp
next
  case (Cons c cs)
  from Cons.prems(3) have j: "i + 1 \<noteq> k" by auto
  from Cons.prems(1) have c: "\<not> hasLivePattern c" "\<not> sublist (marker k) c" by auto
  have "\<not> sublist (marker k) (replace y (marker (i + 1)) (link (i + 1) c))"
    using Cons.prems(2) j c by (rule replace_no_new_marker)
  moreover from Cons.prems(3) have "k \<le> Suc i \<or> Suc i + length cs < k" by auto
  moreover from Cons.prems(1)
  have "\<forall>c\<in>set cs. \<not> hasLivePattern c \<and> \<not> sublist (marker k) c"
    by simp
  ultimately have "\<not> sublist (marker k)
      (resolveFrom (Suc i) cs (replace y (marker (i + 1)) (link (i + 1) c)))"
    using Cons.IH by blast
  then show ?case by simp
qed

text \<open>
  A block \<open>t\<close> that opens with a bracket, closes with a unit no marker has before
  its end, and holds none of the markers still to be processed stays where it is
  while they are processed; so does the text before it.
\<close>

lemma resolveFrom_around_block:
  assumes "\<forall>c\<in>set cs. \<not> hasLivePattern c \<and> \<not> sublist (marker k) c"
    and "k \<le> i \<or> i + length cs < k"
    and "\<forall>j. i < j \<and> j \<le> i + length cs \<longrightarrow> \<not> sublist (marker j) t"
    and "\<not> sublist (marker k) y"
    and "t \<noteq> []" and "hd t = CHR ''[''"
    and "\<forall>j. last t \<notin> set (butlast (marker j))"
  shows "\<exists>y'. resolveFrom i cs (x @ t @ y) = resolveFrom i cs x @ t @ y'
              \<and> \<not> sublist (marker k) y'"
  using assms(1,2,3,4)
proof (induction cs arbitrary: i x y)
  case Nil
  then show ?case by simp
next
  case (Cons c cs)
  let ?p = "marker (i + 1)" and ?r = "link (i + 1) c"
  from Cons.prems(2) have j: "i + 1 \<noteq> k" by auto
  from Cons.prems(1) have c: "\<not> hasLivePattern c" "\<not> sublist (marker k) c" by auto
  from Cons.prems(1) have cs: "\<forall>c\<in>set cs. \<not> hasLivePattern c \<and> \<not> sublist (marker k) c"
    by simp
  from Cons.prems(2) have rg: "k \<le> Suc i \<or> Suc i + length cs < k" by auto
  from Cons.prems(3)
  have bl: "\<forall>j. Suc i < j \<and> j \<le> Suc i + length cs \<longrightarrow> \<not> sublist (marker j) t"
    by simp
  have r: "\<not> hasLivePattern ?r" using c(1) by (rule link_inert)
  show ?case
  proof (cases "sublist ?p x")
    case True
    have "replace (x @ t @ y) ?p ?r = replace x ?p ?r @ t @ y"
      using marker_not_Nil r True by (rule replace_append_left)
    moreover from Cons.IH[OF cs rg bl Cons.prems(4), of "replace x ?p ?r"]
    obtain y' where "resolveFrom (Suc i) cs (replace x ?p ?r @ t @ y)
        = resolveFrom (Suc i) cs (replace x ?p ?r) @ t @ y'" "\<not> sublist (marker k) y'"
      by blast
    ultimately show ?thesis by auto
  next
    case False
    have nt: "\<not> sublist ?p t" using Cons.prems(3) by simp
    have nxt: "\<not> sublist ?p (x @ t)"
      using sublist_boundary[of ?p x t] False nt assms(6) tl_marker[of "i + 1"] by auto
    have "replace ((x @ t) @ y) ?p ?r = (x @ t) @ replace y ?p ?r"
      using marker_not_Nil r nxt
    proof (rule replace_append_right)
      show "x @ t \<noteq> []" using assms(5) by simp
      show "last (x @ t) \<notin> set (butlast ?p)" using assms(5,7) by simp
    qed
    then have e: "replace (x @ t @ y) ?p ?r = x @ t @ replace y ?p ?r" by simp
    have x: "replace x ?p ?r = x" using False by (rule replace_absent)
    have "\<not> sublist (marker k) (replace y ?p ?r)"
      using Cons.prems(4) j c by (rule replace_no_new_marker)
    from Cons.IH[OF cs rg bl this, of x]
    obtain y' where "resolveFrom (Suc i) cs (x @ t @ replace y ?p ?r)
        = resolveFrom (Suc i) cs x @ t @ y'" "\<not> sublist (marker k) y'"
      by blast
    with e x show ?thesis by auto
  qed
qed

lemma marker_block:
  "\<forall>j. last (marker k) \<notin> set (butlast (marker j))"
  "\<forall>j. j \<noteq> k \<longrightarrow> \<not> sublist (marker j) (marker k)"
  using last_marker[of "[]" k] butlast_marker sublist_marker_marker by auto

lemma link_block:
  "\<forall>j. last (link k c) \<notin> set (butlast (marker j))"
  using last_link[of k c] paren_not_in_butlast_marker by auto

lemma first_in_block:
  assumes "\<not> sublist (marker k) x"
  shows "\<not> sublist (marker k) (x @ butlast (marker k))"
proof
  assume a: "sublist (marker k) (x @ butlast (marker k))"
  have "\<not> sublist (marker k) (butlast (marker k))"
    using sublist_length_le[of "marker k" "butlast (marker k)"] marker_not_Nil[of k]
    by (cases "marker k") auto
  moreover have "hd (butlast (marker k)) = CHR ''[''"
    by (simp add: marker_def butlast_append)
  ultimately show False
    using sublist_boundary[OF a] assms tl_marker[of k] by auto
qed

lemma resolveFrom_at:
  assumes "1 \<le> k" and "k \<le> length cs"
  shows "resolveFrom 0 cs s =
         resolveFrom k (drop k cs)
           (replace (resolveFrom 0 (take (k - 1) cs) s) (marker k) (link k (cs ! (k - 1))))"
proof -
  from assms have l: "length (take (k - 1) cs) = k - 1" and sk: "Suc (k - 1) = k"
    by simp_all
  from assms have "cs = take (k - 1) cs @ cs ! (k - 1) # drop (Suc (k - 1)) cs"
    by (intro id_take_nth_drop) simp
  then have d: "cs = take (k - 1) cs @ cs ! (k - 1) # drop k cs"
    by (simp only: sk)
  have "resolveFrom 0 (take (k - 1) cs @ cs ! (k - 1) # drop k cs) s
      = resolveFrom (0 + length (take (k - 1) cs)) (cs ! (k - 1) # drop k cs)
          (resolveFrom 0 (take (k - 1) cs) s)"
    by (rule resolveFrom_append)
  also have "\<dots> = resolveFrom (k - 1) (cs ! (k - 1) # drop k cs)
      (resolveFrom 0 (take (k - 1) cs) s)"
    by (simp only: l add_0)
  also have "\<dots> = resolveFrom k (drop k cs)
           (replace (resolveFrom 0 (take (k - 1) cs) s) (marker k) (link k (cs ! (k - 1))))"
    using sk by simp
  finally show ?thesis using d by simp
qed

subsection \<open>Steps that pass a marker by\<close>

lemma replaceAround_left:
  "p \<noteq> [] \<Longrightarrow> \<not> sublist p (u @ butlast p) \<Longrightarrow>
   replaceAround t p r (u @ p @ v, post)
     = (u @ getSubstitution p u (v @ t @ post) r @ v, post)"
  by (simp add: replaceAround_def stringIndexOf_first)

lemma replaceAround_right:
  "p \<noteq> [] \<Longrightarrow> \<not> sublist p pre \<Longrightarrow> \<not> sublist p (u @ butlast p) \<Longrightarrow>
   replaceAround t p r (pre, u @ p @ v)
     = (pre, u @ getSubstitution p (pre @ t @ u) v r @ v)"
  by (simp add: replaceAround_def stringIndexOf_first stringIndexOf_None_iff[THEN iffD2])

lemma replaceAround_absent:
  "\<not> sublist p pre \<Longrightarrow> \<not> sublist p post \<Longrightarrow> replaceAround t p r (pre, post) = (pre, post)"
  by (simp add: replaceAround_def stringIndexOf_None_iff[THEN iffD2])

text \<open>
  A step for \<open>[j]\<close> on a text that holds \<open>[k]\<close>, \<open>j \<noteq> k\<close>, whatever the replacement
  template: the match lies before that occurrence of \<open>[k]\<close> or after it.
\<close>

lemma replace_around_marker:
  assumes "j \<noteq> k"
  shows "replace (pre @ marker k @ post) (marker j) r
         = (case replaceAround (marker k) (marker j) r (pre, post) of
              (pre', post') \<Rightarrow> pre' @ marker k @ post')"
proof (cases "sublist (marker j) pre")
  case True
  from first_occurrence[OF marker_not_Nil True] obtain u v where
    pre: "pre = u @ marker j @ v" and f: "\<not> sublist (marker j) (u @ butlast (marker j))"
    by blast
  have "replace (u @ marker j @ (v @ marker k @ post)) (marker j) r
      = u @ getSubstitution (marker j) u (v @ marker k @ post) r @ (v @ marker k @ post)"
    using marker_not_Nil f by (rule replace_first)
  moreover have "replaceAround (marker k) (marker j) r (u @ marker j @ v, post)
      = (u @ getSubstitution (marker j) u (v @ marker k @ post) r @ v, post)"
    using marker_not_Nil f by (rule replaceAround_left)
  ultimately show ?thesis by (simp add: pre)
next
  case npre: False
  show ?thesis
  proof (cases "sublist (marker j) post")
    case True
    from first_occurrence[OF marker_not_Nil True] obtain u v where
      post: "post = u @ marker j @ v" and f: "\<not> sublist (marker j) (u @ butlast (marker j))"
      by blast
    have "\<not> sublist (marker j) (pre @ marker k @ (u @ butlast (marker j)))"
    proof
      assume "sublist (marker j) (pre @ marker k @ (u @ butlast (marker j)))"
      then have "sublist (marker j) pre \<or> sublist (marker j) (marker k)
          \<or> sublist (marker j) (u @ butlast (marker j))"
        by (rule sublist_around_block)
           (simp_all add: marker_not_Nil hd_marker[of k "[]", simplified]
             last_marker[of "[]" k, simplified] butlast_marker)
      with npre f assms sublist_marker_marker[of j k] show False by blast
    qed
    then have g: "\<not> sublist (marker j) ((pre @ marker k @ u) @ butlast (marker j))" by simp
    have "replace ((pre @ marker k @ u) @ marker j @ v) (marker j) r
        = (pre @ marker k @ u) @ getSubstitution (marker j) (pre @ marker k @ u) v r @ v"
      using marker_not_Nil g by (rule replace_first)
    moreover have "replaceAround (marker k) (marker j) r (pre, u @ marker j @ v)
        = (pre, u @ getSubstitution (marker j) (pre @ marker k @ u) v r @ v)"
      using marker_not_Nil npre f by (rule replaceAround_right)
    ultimately show ?thesis by (simp add: post)
  next
    case False
    with npre assms have "\<not> sublist (marker j) (pre @ marker k @ post)"
      using sublist_marker_around[of j pre k post] by blast
    then have "replace (pre @ marker k @ post) (marker j) r = pre @ marker k @ post"
      by (rule replace_absent)
    moreover have "replaceAround (marker k) (marker j) r (pre, post) = (pre, post)"
      using npre False by (rule replaceAround_absent)
    ultimately show ?thesis by simp
  qed
qed

lemma resolveFrom_around_marker:
  "k \<le> i \<or> i + length cs < k \<Longrightarrow>
   resolveFrom i cs (pre @ marker k @ post)
     = (case resolveAround (marker k) i cs (pre, post) of
          (pre', post') \<Rightarrow> pre' @ marker k @ post')"
proof (induction cs arbitrary: i pre post)
  case Nil
  then show ?case by simp
next
  case (Cons c cs)
  from Cons.prems have j: "i + 1 \<noteq> k" and rg: "k \<le> Suc i \<or> Suc i + length cs < k"
    by auto
  obtain a b where ab: "replaceAround (marker k) (marker (i + 1)) (link (i + 1) c) (pre, post)
      = (a, b)"
    by (cases "replaceAround (marker k) (marker (i + 1)) (link (i + 1) c) (pre, post)")
  have "replace (pre @ marker k @ post) (marker (i + 1)) (link (i + 1) c) = a @ marker k @ b"
    using replace_around_marker[OF j, of pre post "link (i + 1) c"] by (simp only: ab prod.case)
  then have "resolveFrom i (c # cs) (pre @ marker k @ post)
      = resolveFrom (Suc i) cs (a @ marker k @ b)"
    by simp
  also have "\<dots> = (case resolveAround (marker k) (Suc i) cs (a, b) of
          (pre', post') \<Rightarrow> pre' @ marker k @ post')"
    using rg by (rule Cons.IH)
  also have "\<dots> = (case resolveAround (marker k) i (c # cs) (pre, post) of
          (pre', post') \<Rightarrow> pre' @ marker k @ post')"
    using ab by simp
  finally show ?case .
qed

subsection \<open>Expansion of the replacement template\<close>





subsection \<open>Claims about the resolver\<close>

text \<open>
  C1. The resolver runs through the citations in ascending order and, for index
  \<open>i\<close>, replaces the first occurrence of \<open>[i+1]\<close> in the current string by
  \<open>[[i+1]](citations[i])\<close>. The code does not do so for a citation that holds a
  replacement pattern: with the citation \<^verbatim>\<open>https://x.com/?q=$&lang=en\<close> the text
  written in place of \<open>[1]\<close> has the marker \<open>[1]\<close> where the citation has \<^verbatim>\<open>$&\<close>,
  so it is not \<open>[[1]](citations[0])\<close>. The theorem evaluates the code at that input
  and puts the text the claim describes next to it.
\<close>

theorem resolve_dollar_ampersand:
  "formatAnswerWithCitations ''See [1].'' [''https://x.com/?q=$&lang=en'']
     = ''See [[1]](https://x.com/?q=[1]lang=en).''
   \<and> ''See '' @ link 1 ''https://x.com/?q=$&lang=en'' @ ''.''
     = ''See [[1]](https://x.com/?q=$&lang=en).''
   \<and> formatAnswerWithCitations ''See [1].'' [''https://x.com/?q=$&lang=en'']
     \<noteq> ''See '' @ link 1 ''https://x.com/?q=$&lang=en'' @ ''.''"
  by (simp add: eval_simps)

text \<open>
  C2, under a condition on the citations. Let no citation hold a live replacement
  pattern or a marker \<open>[j]\<close> with \<open>1 \<le> j \<le> length citations\<close> (brackets and dollar
  signs as such are allowed), let \<open>1 \<le> k \<le> length citations\<close>, and let the marker
  \<open>[k]\<close> occur exactly once in the answer, between \<open>pre\<close> and \<open>post\<close>. Then the
  output is the resolver's output for \<open>pre\<close>, followed by the link
  \<open>[[k]](citations[k-1])\<close>, followed by a rest; and \<open>[k]\<close> occurs neither before
  the link nor after it. Whether the marker was already part of a markdown link
  plays no part.
\<close>

theorem single_marker_linked:
  assumes clean: "\<forall>c\<in>set cs. \<not> hasLivePattern c
                    \<and> (\<forall>j\<in>{1..length cs}. \<not> stringIncludes c (marker j))"
    and k: "1 \<le> k" "k \<le> length cs"
    and once: "countOccurrences s (marker k) = 1"
  shows "\<exists>pre post post'.
           s = pre @ marker k @ post
         \<and> \<not> stringIncludes pre (marker k) \<and> \<not> stringIncludes post (marker k)
         \<and> formatAnswerWithCitations s cs
             = formatAnswerWithCitations pre cs @ link k (cs ! (k - 1)) @ post'
         \<and> \<not> stringIncludes (formatAnswerWithCitations pre cs) (marker k)
         \<and> \<not> stringIncludes post' (marker k)"
proof -
  let ?m = "marker k" and ?c = "cs ! (k - 1)"
  let ?cs1 = "take (k - 1) cs" and ?cs2 = "drop k cs"
  from single_occurrence[OF marker_not_Nil once] obtain pre post where
    s: "s = pre @ ?m @ post" and npre: "\<not> sublist ?m pre" and npost: "\<not> sublist ?m post"
    by blast
  have cl: "\<forall>c\<in>set cs. \<not> hasLivePattern c \<and> \<not> sublist ?m c"
    using clean k by (auto simp: stringIncludes_iff)
  have c1: "\<forall>c\<in>set ?cs1. \<not> hasLivePattern c \<and> \<not> sublist ?m c"
    using cl by (meson in_set_takeD)
  have c2: "\<forall>c\<in>set ?cs2. \<not> hasLivePattern c \<and> \<not> sublist ?m c"
    using cl by (meson in_set_dropD)
  have mem: "?c \<in> set cs" using k by (intro nth_mem) simp
  have ck: "\<not> hasLivePattern ?c" using cl mem by blast
  have b1: "\<forall>j. 0 < j \<and> j \<le> 0 + length ?cs1 \<longrightarrow> \<not> sublist (marker j) ?m"
    using k marker_block(2)[of k] by auto
  have b2: "\<forall>j. k < j \<and> j \<le> k + length ?cs2 \<longrightarrow> \<not> sublist (marker j) (link k ?c)"
  proof (intro allI impI)
    fix j assume j: "k < j \<and> j \<le> k + length ?cs2"
    with k have "j \<in> {1..length cs}" by simp
    with clean mem have "\<not> sublist (marker j) ?c"
      by (auto simp: stringIncludes_iff)
    with j marker_in_link[of j k ?c] show "\<not> sublist (marker j) (link k ?c)" by auto
  qed
  have r1: "k \<le> 0 \<or> 0 + length ?cs1 < k" using k by simp
  have r2: "k \<le> k \<or> k + length ?cs2 < k" by simp
  let ?x1 = "resolveFrom 0 ?cs1 pre"
  from resolveFrom_around_block[OF c1 r1 b1 npost marker_not_Nil
      hd_marker[of k "[]", simplified] marker_block(1), of pre]
  obtain y1 where p1: "resolveFrom 0 ?cs1 (pre @ ?m @ post) = ?x1 @ ?m @ y1"
    and ny1: "\<not> sublist ?m y1" by blast
  have nx1: "\<not> sublist ?m ?x1"
    using c1 npre r1 by (rule resolveFrom_no_new_marker)
  have st: "replace (?x1 @ ?m @ y1) ?m (link k ?c) = ?x1 @ link k ?c @ y1"
    using marker_not_Nil link_inert[OF ck] first_in_block[OF nx1]
    by (rule replace_plain_first)
  have sx: "replace ?x1 ?m (link k ?c) = ?x1"
    using nx1 by (rule replace_absent)
  from resolveFrom_around_block[OF c2 r2 b2 ny1 link_not_Nil hd_link link_block, of "?x1"]
  obtain y2 where p2: "resolveFrom k ?cs2 (?x1 @ link k ?c @ y1)
      = resolveFrom k ?cs2 ?x1 @ link k ?c @ y2"
    and ny2: "\<not> sublist ?m y2" by blast
  have "resolveFrom 0 cs s
      = resolveFrom k ?cs2 (replace (resolveFrom 0 ?cs1 s) ?m (link k ?c))"
    using k by (rule resolveFrom_at)
  also have "\<dots> = resolveFrom k ?cs2 (replace (?x1 @ ?m @ y1) ?m (link k ?c))"
    by (simp only: s p1)
  also have "\<dots> = resolveFrom k ?cs2 ?x1 @ link k ?c @ y2"
    by (simp only: st p2)
  finally have whole: "resolveFrom 0 cs s = resolveFrom k ?cs2 ?x1 @ link k ?c @ y2" .
  have left: "resolveFrom 0 cs pre = resolveFrom k ?cs2 ?x1"
    by (simp only: resolveFrom_at[OF k, of pre] sx)
  have nleft: "\<not> sublist ?m (resolveFrom k ?cs2 ?x1)"
    using c2 nx1 r2 by (rule resolveFrom_no_new_marker)
  have "s = pre @ ?m @ post
      \<and> \<not> stringIncludes pre ?m \<and> \<not> stringIncludes post ?m
      \<and> formatAnswerWithCitations s cs
          = formatAnswerWithCitations pre cs @ link k ?c @ y2
      \<and> \<not> stringIncludes (formatAnswerWithCitations pre cs) ?m
      \<and> \<not> stringIncludes y2 ?m"
  proof (intro conjI)
    show "formatAnswerWithCitations s cs
        = formatAnswerWithCitations pre cs @ link k ?c @ y2"
      by (simp only: formatAnswerWithCitations_eq whole left)
    show "\<not> stringIncludes (formatAnswerWithCitations pre cs) ?m"
      unfolding formatAnswerWithCitations_eq stringIncludes_iff left by (rule nleft)
    show "s = pre @ ?m @ post" by (rule s)
    show "\<not> stringIncludes pre ?m" unfolding stringIncludes_iff by (rule npre)
    show "\<not> stringIncludes post ?m" unfolding stringIncludes_iff by (rule npost)
    show "\<not> stringIncludes y2 ?m" unfolding stringIncludes_iff by (rule ny2)
  qed
  then show ?thesis by blast
qed

text \<open>
  The hypotheses hold for the second marker of the scenario of the specification,
  with citations that hold brackets and a dollar sign.
\<close>

theorem single_marker_linked_witness:
  "\<exists>pre post post'.
       ''Use ibuprofen cautiously [1]. See also [2] for dosage.'' = pre @ marker 2 @ post
     \<and> \<not> stringIncludes pre (marker 2) \<and> \<not> stringIncludes post (marker 2)
     \<and> formatAnswerWithCitations ''Use ibuprofen cautiously [1]. See also [2] for dosage.''
          [''https://a.com/?term=aspirin[ti]'', ''http://[::1]:8000/a?f[]=1&p=$5'']
         = formatAnswerWithCitations pre
             [''https://a.com/?term=aspirin[ti]'', ''http://[::1]:8000/a?f[]=1&p=$5'']
           @ link 2 ([''https://a.com/?term=aspirin[ti]'', ''http://[::1]:8000/a?f[]=1&p=$5'']
                      ! (2 - 1))
           @ post'
     \<and> \<not> stringIncludes (formatAnswerWithCitations pre
            [''https://a.com/?term=aspirin[ti]'', ''http://[::1]:8000/a?f[]=1&p=$5''])
           (marker 2)
     \<and> \<not> stringIncludes post' (marker 2)"
proof -
  have m: "marker 1 = ''[1]''" "marker (Suc 0) = ''[1]''" "marker 2 = ''[2]''"
    by (simp_all add: marker_def numberToString.simps digitChar_def)
  have r: "{1..length [''https://a.com/?term=aspirin[ti]'', ''http://[::1]:8000/a?f[]=1&p=$5'']}
      = {1, 2}"
    by auto
  have h1: "\<forall>c\<in>set [''https://a.com/?term=aspirin[ti]'', ''http://[::1]:8000/a?f[]=1&p=$5''].
              \<not> hasLivePattern c
            \<and> (\<forall>j\<in>{1..length [''https://a.com/?term=aspirin[ti]'',
                                  ''http://[::1]:8000/a?f[]=1&p=$5'']}.
                  \<not> stringIncludes c (marker j))"
    unfolding r by (simp add: m stringIncludes_def patternUnit_def)
  have h2: "1 \<le> (2::nat)"
    and h3: "2 \<le> length [''https://a.com/?term=aspirin[ti]'', ''http://[::1]:8000/a?f[]=1&p=$5'']"
    by simp_all
  have h4: "countOccurrences ''Use ibuprofen cautiously [1]. See also [2] for dosage.''
              (marker 2) = 1"
    by (simp add: m)
  show ?thesis by (rule single_marker_linked[OF h1 h2 h3 h4])
qed

text \<open>
  Without the condition on the citations the claim fails, in two ways. \<open>[1]\<close>
  occurs once in the answer \<open>[1]\<close>, the first citation is \<open>x[2]\<close>, and the second
  step rewrites the \<open>[2]\<close> inside the link just written, so the output does not
  contain \<open>[[1]](x[2])\<close>. And in the answer \<open>[1] [2]\<close>, where \<open>[2]\<close> occurs once,
  that occurrence is never rewritten: the second step finds the \<open>[2]\<close> of the first
  citation before it.
\<close>

theorem single_marker_counterexample:
  "countOccurrences ''[1]'' (marker 1) = 1
   \<and> formatAnswerWithCitations ''[1]'' [''x[2]'', ''b''] = ''[[1]](x[[2]](b))''
   \<and> \<not> stringIncludes (formatAnswerWithCitations ''[1]'' [''x[2]'', ''b''])
         (link 1 ([''x[2]'', ''b''] ! (1 - 1)))
   \<and> countOccurrences ''[1] [2]'' (marker 2) = 1
   \<and> formatAnswerWithCitations ''[1] [2]'' [''x[2]'', ''b''] = ''[[1]](x[[2]](b)) [2]''"
  by (simp add: eval_simps)

text \<open>
  C3. With an empty citation list the answer is returned as it is, for every answer;
  in particular for the answer \<^verbatim>\<open>No sources here.\<close>
\<close>

theorem resolve_no_citations:
  "formatAnswerWithCitations s [] = s \<and>
   formatAnswerWithCitations ''No sources here.'' [] = ''No sources here.''"
  by (simp add: formatAnswerWithCitations_eq)

text \<open>
  C4. A marker whose number exceeds the number of citations is left untouched.
  Wherever \<open>[k]\<close> stands in the answer, between \<open>pre\<close> and \<open>post\<close>, with \<open>k\<close> greater
  than the length of the citation list, the output has that same \<open>[k]\<close> between
  two texts that come from \<open>pre\<close> and from \<open>post\<close> by the resolver's steps, every one
  of which matched and wrote strictly before the marker or strictly after it
  (\<open>resolveAround\<close>); in particular the output contains \<open>[k]\<close>. So for \<open>[5]\<close> and
  three citations, whatever the citations are.
\<close>

theorem marker_beyond_citations_untouched:
  assumes "length cs < k"
  shows "formatAnswerWithCitations (pre @ marker k @ post) cs
           = (case resolveAround (marker k) 0 cs (pre, post) of
                (pre', post') \<Rightarrow> pre' @ marker k @ post')
       \<and> stringIncludes (formatAnswerWithCitations (pre @ marker k @ post) cs) (marker k)"
proof -
  from assms have rg: "k \<le> 0 \<or> 0 + length cs < k" by simp
  have e: "formatAnswerWithCitations (pre @ marker k @ post) cs
      = (case resolveAround (marker k) 0 cs (pre, post) of
           (pre', post') \<Rightarrow> pre' @ marker k @ post')"
    unfolding formatAnswerWithCitations_eq using rg by (rule resolveFrom_around_marker)
  have "sublist (marker k) (pre @ marker k @ post)" by simp
  then have "sublist (marker k) (resolveFrom 0 cs (pre @ marker k @ post))"
    using rg by (rule resolveFrom_keeps_marker)
  with e show ?thesis by (simp add: formatAnswerWithCitations_eq stringIncludes_iff)
qed

text \<open>
  The scenario of the specification: \<open>[5]\<close> with three citations, one of them with
  a live pattern. The first marker is rewritten, \<open>[5]\<close> stays as it is.
\<close>

theorem marker_beyond_citations_untouched_witness:
  "length [''https://a.com/$&'', ''https://b.com'', ''https://c.com''] < 5
   \<and> formatAnswerWithCitations (''As shown in [1] and '' @ marker 5 @ ''.'')
        [''https://a.com/$&'', ''https://b.com'', ''https://c.com'']
      = ''As shown in [[1]](https://a.com/[1]) and '' @ marker 5 @ ''.''
   \<and> stringIncludes
        (formatAnswerWithCitations (''As shown in [1] and '' @ marker 5 @ ''.'')
           [''https://a.com/$&'', ''https://b.com'', ''https://c.com'']) (marker 5)"
proof -
  have h: "length [''https://a.com/$&'', ''https://b.com'', ''https://c.com''] < 5" by simp
  have m: "marker 5 = ''[5]''"
    by (simp add: marker_def numberToString.simps digitChar_def)
  have r: "resolveAround ''[5]'' 0 [''https://a.com/$&'', ''https://b.com'', ''https://c.com'']
             (''As shown in [1] and '', ''.'')
           = (''As shown in [[1]](https://a.com/[1]) and '', ''.'')"
    by (simp add: replaceAround_def marker_def link_def numberToString.simps digitChar_def)
  from marker_beyond_citations_untouched[OF h, of "''As shown in [1] and ''" "''.''"] h
  show ?thesis unfolding m r by (simp add: stringIncludes_def)
qed

text \<open>
  C5. The two-citation scenario of the specification: both markers become links.
\<close>

theorem resolve_ibuprofen_scenario:
  "formatAnswerWithCitations ''Use ibuprofen cautiously [1]. See also [2] for dosage.''
     [''https://a.com'', ''https://b.com'']
   = ''Use ibuprofen cautiously [[1]](https://a.com). See also [[2]](https://b.com) for dosage.''"
  by (simp add: eval_simps)

text \<open>
  C6. The resolver is not idempotent: the link it writes for \<open>[1]\<close> contains the
  text \<open>[1]\<close> again, which a second run rewrites.
\<close>

theorem resolve_not_idempotent:
  "\<exists>s cs. formatAnswerWithCitations (formatAnswerWithCitations s cs) cs
           \<noteq> formatAnswerWithCitations s cs"
proof -
  have "formatAnswerWithCitations (formatAnswerWithCitations ''[1]'' [''u'']) [''u'']
        \<noteq> formatAnswerWithCitations ''[1]'' [''u'']"
    by (simp add: eval_simps)
  then show ?thesis by blast
qed




section \<open>The query submission flow\<close>

lemma askQuestion_blank:
  "trim (question st) = [] \<Longrightarrow> askQuestion st = (st, None)"
  by (simp add: askQuestion_def)

lemma blank_question_never_fetches:
  "trim (question st) = [] \<Longrightarrow> snd (handle st Click) = None
     \<and> snd (handle st (KeyDown key shiftKey)) = None"
  by (simp add: buttonDisabled_def askQuestion_def handleKeyPress_def)

lemma click_while_loading_never_fetches:
  "loading st \<Longrightarrow> snd (handle st Click) = None"
  by (simp add: buttonDisabled_def)

text \<open>
  C8. No request is started when the trimmed question is empty or a request is
  pending. The first half holds on both paths (\<open>blank_question_never_fetches\<close>),
  and the button does not deliver a click while \<open>loading\<close> is set
  (\<open>click_while_loading_never_fetches\<close>). The Enter key is not held back:
  \<^verbatim>\<open>handleKeyPress\<close> calls \<^verbatim>\<open>askQuestion\<close>, which tests the question only. After
  typing \<^verbatim>\<open>aspirin\<close> and clicking, \<open>loading\<close> is set and one request is out; Enter
  in that state starts a second one.
\<close>

theorem enter_while_pending_starts_fetch:
  "run (initialView, []) [Change ''aspirin'', Click]
     = (\<lparr>question = ''aspirin'', loading = True, result = None, error = None\<rparr>, [''aspirin''])
   \<and> handle \<lparr>question = ''aspirin'', loading = True, result = None, error = None\<rparr>
        (KeyDown ''Enter'' False)
     = (\<lparr>question = ''aspirin'', loading = True, result = None, error = None\<rparr>, Some ''aspirin'')
   \<and> snd (run (initialView, []) [Change ''aspirin'', Click, KeyDown ''Enter'' False])
     = [''aspirin'', ''aspirin'']"
  by (simp add: initialView_def buttonDisabled_def askQuestion_def handleKeyPress_def
      trim_def isWhiteSpace_def)

text \<open>
  When the request of a submission fails before any other event, the view is as
  the specification describes it: the error is set, \<open>loading\<close> is cleared and no
  result card is rendered.
\<close>

lemma failure_of_single_request:
  assumes "askQuestion st0 = (st1, Some body)" and "\<not> ok status"
  shows "(let st2 = askQuestion_settle (Response status b) st1 in
            error st2 = Some (''HTTP error! Status: '' @ numberToString status)
          \<and> errorShown st2 \<and> \<not> loading st2 \<and> \<not> skeletonShown st2
          \<and> result st2 = None \<and> \<not> resultCardShown st2
          \<and> question st2 = question st0)
       \<and> (let st2 = askQuestion_settle (Rejected message) st1 in
            error st2 = Some message
          \<and> (errorShown st2 \<longleftrightarrow> message \<noteq> []) \<and> \<not> loading st2 \<and> \<not> skeletonShown st2
          \<and> result st2 = None \<and> \<not> resultCardShown st2
          \<and> question st2 = question st0)"
proof -
  from assms(1) have st1: "st1 = st0\<lparr>loading := True, result := None, error := None\<rparr>"
    by (auto simp: askQuestion_def split: if_splits)
  show ?thesis
    using assms(2)
    by (simp add: st1 Let_def askQuestion_settle_def tryBlock_def errorShown_def
        skeletonShown_def resultCardShown_def)
qed

text \<open>
  C9. On a failure the flow shows one error string, clears \<open>loading\<close> and renders
  no result card. The code renders the card beside the error when a second request
  is in flight, which Enter starts while the first is pending: one of the two is
  answered with status 200 and sets the result, the other with status 500 and sets
  the error, and nothing clears the result in between.
\<close>

theorem failure_beside_result_card:
  "run (initialView, [])
     [Change ''aspirin'', Click, KeyDown ''Enter'' False,
      Settle (Response 200
        (Parsed \<lparr>topic = ''drug'', domain_filter = [], answer = ''See [1].'',
                 citations = [''https://a.com'']\<rparr>)),
      Settle (Response 500 (ParseError []))]
   = (\<lparr>question = ''aspirin'', loading = False,
       result = Some \<lparr>topic = ''drug'', domain_filter = [], answer = ''See [1].'',
                      citations = [''https://a.com'']\<rparr>,
       error = Some ''HTTP error! Status: 500''\<rparr>,
      [''aspirin'', ''aspirin''])
   \<and> errorShown \<lparr>question = ''aspirin'', loading = False,
       result = Some \<lparr>topic = ''drug'', domain_filter = [], answer = ''See [1].'',
                      citations = [''https://a.com'']\<rparr>,
       error = Some ''HTTP error! Status: 500''\<rparr>
   \<and> resultCardShown \<lparr>question = ''aspirin'', loading = False,
       result = Some \<lparr>topic = ''drug'', domain_filter = [], answer = ''See [1].'',
                      citations = [''https://a.com'']\<rparr>,
       error = Some ''HTTP error! Status: 500''\<rparr>"
  by (simp add: initialView_def buttonDisabled_def askQuestion_def handleKeyPress_def
      trim_def isWhiteSpace_def askQuestion_settle_def tryBlock_def ok_def
      numberToString.simps digitChar_def errorShown_def resultCardShown_def)

end
